theory Spec2Isabelle
  imports Main "HOL-Library.Sublist" "HOL-Library.Multiset" "HOL-Library.List_Lexorder"
    "HOL-Library.Char_ord"
begin

section \<open>Strings of the host language\<close>

text \<open>
  A JavaScript string is modelled as a \<^typ>\<open>string\<close>: the list of the bytes of its UTF-8
  encoding. The delimiters of the image pattern and the denylisted domain are ASCII, so
  matching them on bytes and on UTF-16 code units agree. \<open>String.prototype.trim\<close> strips
  the WhiteSpace and LineTerminator code points of ECMAScript; the ones beyond ASCII are
  several bytes long, so white space is a list of byte sequences.
\<close>

definition js_whitespace :: "string list" where
  "js_whitespace =
    [[CHR 0x09], [CHR 0x0A], [CHR 0x0B], [CHR 0x0C], [CHR 0x0D], [CHR 0x20],
     [CHR 0xC2, CHR 0xA0],
     [CHR 0xE1, CHR 0x9A, CHR 0x80],
     [CHR 0xE2, CHR 0x80, CHR 0x80], [CHR 0xE2, CHR 0x80, CHR 0x81],
     [CHR 0xE2, CHR 0x80, CHR 0x82], [CHR 0xE2, CHR 0x80, CHR 0x83],
     [CHR 0xE2, CHR 0x80, CHR 0x84], [CHR 0xE2, CHR 0x80, CHR 0x85],
     [CHR 0xE2, CHR 0x80, CHR 0x86], [CHR 0xE2, CHR 0x80, CHR 0x87],
     [CHR 0xE2, CHR 0x80, CHR 0x88], [CHR 0xE2, CHR 0x80, CHR 0x89],
     [CHR 0xE2, CHR 0x80, CHR 0x8A],
     [CHR 0xE2, CHR 0x80, CHR 0xA8], [CHR 0xE2, CHR 0x80, CHR 0xA9],
     [CHR 0xE2, CHR 0x80, CHR 0xAF],
     [CHR 0xE2, CHR 0x81, CHR 0x9F],
     [CHR 0xE3, CHR 0x80, CHR 0x80],
     [CHR 0xEF, CHR 0xBB, CHR 0xBF]]"

text \<open>Remove every leading occurrence of one of the sequences \<open>ws\<close>.\<close>

function strip_leading :: "string list \<Rightarrow> string \<Rightarrow> string" where
  "strip_leading ws s =
     (case find (\<lambda>w. w \<noteq> [] \<and> prefix w s) ws of
        None \<Rightarrow> s
      | Some w \<Rightarrow> strip_leading ws (drop (length w) s))"
  by pat_completeness auto
termination
  by (relation "measure (\<lambda>(ws, s). length s)") (auto simp: find_Some_iff prefix_def)

declare strip_leading.simps [simp del]

definition trimStart :: "string \<Rightarrow> string" where
  "trimStart s = strip_leading js_whitespace s"

definition trimEnd :: "string \<Rightarrow> string" where
  "trimEnd s = rev (strip_leading (map rev js_whitespace) (rev s))"

definition trim :: "string \<Rightarrow> string" where
  "trim s = trimEnd (trimStart s)"

text \<open>\<open>s.includes(t)\<close>: \<open>t\<close> occurs in \<open>s\<close> as a contiguous substring.\<close>

fun string_includes :: "string \<Rightarrow> string \<Rightarrow> bool" where
  "string_includes [] t = (t = [])"
| "string_includes (c # s) t = (prefix t (c # s) \<or> string_includes s t)"

section \<open>Image records\<close>

record image =
  uid :: string
  url :: string
  alt :: string
  createTime :: "int option"
  pageTitle :: string
  blockContent :: string
  parentContent :: string
  childrenContent :: string
  siblingsContent :: string
  searchableContent :: string
  contextLoaded :: bool

section \<open>The image pattern\<close>

text \<open>
  The pattern is \<^verbatim>\<open>/!\[([^\]]*)\]\(([^)]+)\)/g\<close>. Both quantifiers are greedy over a
  class that excludes the delimiter which must follow, so at a given start position the
  only candidate is the longest run: a shorter run is followed by a character of the
  class, never by the delimiter. \<open>match_here\<close> is an attempt at the first position of the
  text; it gives the two captures and the text after the match.
\<close>

definition match_here :: "string \<Rightarrow> (string \<times> string \<times> string) option" where
  "match_here s =
     (if take 2 s = ''!['' then
        let s1 = drop 2 s;
            alt1 = takeWhile (\<lambda>c. c \<noteq> CHR '']'') s1;
            s2 = dropWhile (\<lambda>c. c \<noteq> CHR '']'') s1
        in if take 2 s2 = '']('' then
             let s3 = drop 2 s2;
                 url1 = takeWhile (\<lambda>c. c \<noteq> CHR '')'') s3;
                 s4 = dropWhile (\<lambda>c. c \<noteq> CHR '')'') s3
             in if url1 \<noteq> [] \<and> take 1 s4 = '')'' then Some (alt1, url1, drop 1 s4)
                else None
           else None
      else None)"

text \<open>
  \<open>markdownRegex.exec\<close> on the text from \<open>lastIndex\<close> on: the leftmost match, or
  \<open>None\<close> for \<open>null\<close>. The third component is the text from the new \<open>lastIndex\<close> on.
\<close>

fun regex_exec :: "string \<Rightarrow> (string \<times> string \<times> string) option" where
  "regex_exec [] = None"
| "regex_exec (c # s) =
     (case match_here (c # s) of
        Some m \<Rightarrow> Some m
      | None \<Rightarrow> regex_exec s)"

lemma match_here_shorter:
  "match_here s = Some (a, u, r) \<Longrightarrow> length r < length s"
proof -
  assume m: "match_here s = Some (a, u, r)"
  let ?s1 = "drop 2 s"
  let ?s2 = "dropWhile (\<lambda>c. c \<noteq> CHR '']'') ?s1"
  let ?s3 = "drop 2 ?s2"
  let ?s4 = "dropWhile (\<lambda>c. c \<noteq> CHR '')'') ?s3"
  from m have p: "take 2 s = ''![''" and r: "r = drop 1 ?s4"
    by (auto simp: match_here_def Let_def split: if_splits)
  from p have "s \<noteq> []" by auto
  moreover have "length ?s4 \<le> length ?s3" by (rule length_dropWhile_le)
  moreover have "length ?s2 \<le> length ?s1" by (rule length_dropWhile_le)
  ultimately show ?thesis using r by (cases s) auto
qed

lemma regex_exec_shorter:
  "regex_exec s = Some (a, u, r) \<Longrightarrow> length r < length s"
proof (induction s)
  case Nil
  then show ?case by simp
next
  case (Cons c s)
  show ?case
  proof (cases "match_here (c # s)")
    case None
    with Cons show ?thesis by fastforce
  next
    case (Some m)
    with Cons.prems have "match_here (c # s) = Some (a, u, r)" by simp
    then show ?thesis by (rule match_here_shorter)
  qed
qed

section \<open>processImageBatch\<close>

text \<open>The object pushed for one match, with \<open>trimmedUrl\<close> already computed.\<close>

definition image_record ::
  "(string \<Rightarrow> string) \<Rightarrow> string \<Rightarrow> int \<Rightarrow> string \<Rightarrow> string \<Rightarrow> string \<Rightarrow> string \<Rightarrow> image" where
  "image_record toLowerCase uid1 createTime1 content pageTitle1 alt1 trimmedUrl =
     \<lparr> uid = uid1,
       url = trimmedUrl,
       alt = (if alt1 = [] then ''Image'' else alt1),
       createTime = (if createTime1 > 0 then Some createTime1 else None),
       pageTitle = (if pageTitle1 = [] then ''Untitled'' else pageTitle1),
       blockContent = content,
       parentContent = [],
       childrenContent = [],
       siblingsContent = [],
       searchableContent = toLowerCase (content @ '' '' @ pageTitle1),
       contextLoaded = False \<rparr>"

text \<open>
  The \<open>while\<close> loop over the matches of one block. \<open>images\<close> is the array the records
  are pushed to, \<open>rest\<close> the text from \<open>lastIndex\<close> on. \<open>toLowerCase\<close> is the case
  mapping of the host language, a parameter of the model.
\<close>

function extract_matches ::
  "(string \<Rightarrow> string) \<Rightarrow> string \<Rightarrow> int \<Rightarrow> string \<Rightarrow> string \<Rightarrow> image list \<Rightarrow> string \<Rightarrow> image list" where
  "extract_matches toLowerCase uid1 createTime1 content pageTitle1 images rest =
     (case regex_exec rest of
        None \<Rightarrow> images
      | Some (alt1, url1, rest') \<Rightarrow>
          if url1 \<noteq> [] then
            let trimmedUrl = trim url1
            in if \<not> string_includes trimmedUrl ''mmbiz.qpic.cn''
               then extract_matches toLowerCase uid1 createTime1 content pageTitle1
                      (images @ [image_record toLowerCase uid1 createTime1 content pageTitle1 alt1 trimmedUrl])
                      rest'
               else extract_matches toLowerCase uid1 createTime1 content pageTitle1 images rest'
          else extract_matches toLowerCase uid1 createTime1 content pageTitle1 images rest')"
  by pat_completeness auto
termination
  by (relation "measure (\<lambda>(lc, u, t, c, p, images, rest). length rest)")
     (auto dest: regex_exec_shorter)

declare extract_matches.simps [simp del]

text \<open>
  The host's \<open>window.roamAlphaAPI.q\<close>, one field for each query text the extension
  builds from a block uid. A call either raises (\<open>Inl\<close>) or returns its rows.
\<close>

datatype query_error = QueryError string

record roamAlphaAPI =
  block_q :: "string \<Rightarrow> query_error + (string \<times> string) list"
  parent_q :: "string \<Rightarrow> query_error + string list"
  children_q :: "string \<Rightarrow> query_error + string list"
  siblings_q :: "string \<Rightarrow> query_error + (string \<times> int) list"

text \<open>The body of the \<open>try\<close> for one entry of the batch: the query may raise.\<close>

definition process_block ::
  "roamAlphaAPI \<Rightarrow> (string \<Rightarrow> string) \<Rightarrow> image list \<Rightarrow> string \<times> int \<Rightarrow> query_error + image list" where
  "process_block api toLowerCase images entry =
     (case entry of (uid1, createTime1) \<Rightarrow>
        (case block_q api uid1 of
           Inl e \<Rightarrow> Inl e
         | Inr blockResult \<Rightarrow>
             (case blockResult of
                [] \<Rightarrow> Inr images
              | (content, pageTitle1) # _ \<Rightarrow>
                  Inr (extract_matches toLowerCase uid1 createTime1 content pageTitle1 images content))))"

text \<open>
  The \<open>for\<close> loop with its \<open>catch\<close>: an error is written to the console (the second
  component, the uid with the error) and the loop goes on with \<open>images\<close> as it was.
\<close>

fun process_batch_loop ::
  "roamAlphaAPI \<Rightarrow> (string \<Rightarrow> string) \<Rightarrow> image list \<times> (string \<times> query_error) list
     \<Rightarrow> (string \<times> int) list \<Rightarrow> image list \<times> (string \<times> query_error) list" where
  "process_batch_loop api toLowerCase (images, console) [] = (images, console)"
| "process_batch_loop api toLowerCase (images, console) (entry # uidBatch) =
     (case process_block api toLowerCase images entry of
        Inl e \<Rightarrow> process_batch_loop api toLowerCase (images, console @ [(fst entry, e)]) uidBatch
      | Inr images' \<Rightarrow> process_batch_loop api toLowerCase (images', console) uidBatch)"

definition processImageBatch ::
  "roamAlphaAPI \<Rightarrow> (string \<Rightarrow> string) \<Rightarrow> (string \<times> int) list
     \<Rightarrow> image list \<times> (string \<times> query_error) list" where
  "processImageBatch api toLowerCase uidBatch = process_batch_loop api toLowerCase ([], []) uidBatch"

subsection \<open>Block texts built from markers\<close>

text \<open>
  A block text with \<open>k\<close> markers is \<open>k\<close> triples (gap, alt, url) and a tail: each gap is
  the text before its marker. A marker is \<open>![\<close>, an alt with no closing bracket, \<open>](\<close>,
  a non-empty url with no closing parenthesis, and \<open>)\<close>. The markers of a text are well
  formed when each has that shape and no text of that shape begins at a position inside
  a gap or the tail. These definitions follow the shape of the pattern, not the matcher.
\<close>

definition marker :: "string \<Rightarrow> string \<Rightarrow> string" where
  "marker a u = ''!['' @ a @ '']('' @ u @ '')''"

fun marked_text :: "(string \<times> string \<times> string) list \<Rightarrow> string \<Rightarrow> string" where
  "marked_text [] tail = tail"
| "marked_text ((g, a, u) # ms) tail = g @ marker a u @ marked_text ms tail"

definition starts_with_marker :: "string \<Rightarrow> bool" where
  "starts_with_marker s =
     (\<exists>a u r. s = marker a u @ r \<and> CHR '']'' \<notin> set a \<and> u \<noteq> [] \<and> CHR '')'' \<notin> set u)"

fun no_marker_starts :: "string \<Rightarrow> string \<Rightarrow> bool" where
  "no_marker_starts [] rest = True"
| "no_marker_starts (c # g) rest =
     (\<not> starts_with_marker (c # g @ rest) \<and> no_marker_starts g rest)"

fun well_formed_markers :: "(string \<times> string \<times> string) list \<Rightarrow> string \<Rightarrow> bool" where
  "well_formed_markers [] tail = no_marker_starts tail []"
| "well_formed_markers ((g, a, u) # ms) tail =
     (no_marker_starts g (marker a u @ marked_text ms tail) \<and>
      CHR '']'' \<notin> set a \<and> u \<noteq> [] \<and> CHR '')'' \<notin> set u \<and>
      well_formed_markers ms tail)"

text \<open>The images of one block, as a function of what its query answers.\<close>

definition block_images ::
  "roamAlphaAPI \<Rightarrow> (string \<Rightarrow> string) \<Rightarrow> string \<times> int \<Rightarrow> image list" where
  "block_images api toLowerCase entry =
     (case process_block api toLowerCase [] entry of Inl e \<Rightarrow> [] | Inr images \<Rightarrow> images)"

definition query_succeeds :: "roamAlphaAPI \<Rightarrow> string \<times> int \<Rightarrow> bool" where
  "query_succeeds api entry = (case block_q api (fst entry) of Inl e \<Rightarrow> False | Inr r \<Rightarrow> True)"

text \<open>A case mapping for running the model on ASCII texts.\<close>

definition ascii_toLowerCase :: "string \<Rightarrow> string" where
  "ascii_toLowerCase s =
     map (\<lambda>c. if (65::nat) \<le> of_char c \<and> of_char c \<le> (90::nat) then char_of (of_char c + (32::nat)) else c) s"

section \<open>sortImages\<close>

text \<open>
  \<open>Array.prototype.sort\<close> with a comparator. ECMAScript requires the sort to be stable,
  and for a consistent comparator the result is the one stably sorted permutation; it is
  modelled as a stable insertion sort: an element is put before the first element of the
  sorted rest that the comparator does not place before it.
\<close>

fun insert_sorted :: "('a \<Rightarrow> 'a \<Rightarrow> int) \<Rightarrow> 'a \<Rightarrow> 'a list \<Rightarrow> 'a list" where
  "insert_sorted cmp x [] = [x]"
| "insert_sorted cmp x (y # ys) =
     (if cmp x y > 0 then y # insert_sorted cmp x ys else x # y # ys)"

definition array_sort :: "('a \<Rightarrow> 'a \<Rightarrow> int) \<Rightarrow> 'a list \<Rightarrow> 'a list" where
  "array_sort cmp xs = foldr (insert_sorted cmp) xs []"

text \<open>
  The \<open>switch\<close> of \<open>sortImages\<close> on the array \<open>sorted\<close> (here \<open>sorted1\<close>). The elements of a JavaScript
  array are references: \<open>get\<close> reads the object an element stands for. \<open>localeCompare\<close>
  is \<open>String.prototype.localeCompare\<close>, the collation of the host, a parameter.
\<close>

definition sort_switch ::
  "(string \<Rightarrow> string \<Rightarrow> int) \<Rightarrow> ('a \<Rightarrow> image) \<Rightarrow> 'a list \<Rightarrow> string \<Rightarrow> 'a list" where
  "sort_switch localeCompare get sorted1 sortOrder =
     (if sortOrder = ''newest'' then
        array_sort (\<lambda>a b.
          if createTime (get a) = None \<and> createTime (get b) = None then 0
          else if createTime (get a) = None then 1
          else if createTime (get b) = None then - 1
          else the (createTime (get b)) - the (createTime (get a))) sorted1
      else if sortOrder = ''oldest'' then
        array_sort (\<lambda>a b.
          if createTime (get a) = None \<and> createTime (get b) = None then 0
          else if createTime (get a) = None then 1
          else if createTime (get b) = None then - 1
          else the (createTime (get a)) - the (createTime (get b))) sorted1
      else if sortOrder = ''page-alpha'' then
        array_sort (\<lambda>a b. localeCompare (pageTitle (get a)) (pageTitle (get b))) sorted1
      else if sortOrder = ''page-reverse'' then
        array_sort (\<lambda>a b. localeCompare (pageTitle (get b)) (pageTitle (get a))) sorted1
      else
        array_sort (\<lambda>a b.
          if createTime (get a) = None \<and> createTime (get b) = None then 0
          else if createTime (get a) = None then 1
          else if createTime (get b) = None then - 1
          else the (createTime (get b)) - the (createTime (get a))) sorted1)"

definition sortImages :: "(string \<Rightarrow> string \<Rightarrow> int) \<Rightarrow> image list \<Rightarrow> string \<Rightarrow> image list" where
  "sortImages localeCompare images sortOrder = sort_switch localeCompare (\<lambda>img. img) images sortOrder"

text \<open>
  With an explicit store: \<open>[...images]\<close> allocates a new array holding the references
  of \<open>images\<close>, and \<open>sort\<close> reorders that array in place. An array is addressed by its
  index in \<open>arrays\<close>, an object by its index in \<open>objects\<close>.
\<close>

record js_heap =
  arrays :: "nat list list"
  objects :: "image list"

definition sortImages_heap ::
  "(string \<Rightarrow> string \<Rightarrow> int) \<Rightarrow> js_heap \<Rightarrow> nat \<Rightarrow> string \<Rightarrow> (nat \<times> js_heap) option" where
  "sortImages_heap localeCompare h images sortOrder =
     (if images < length (arrays h) then
        let sorted1 = length (arrays h);
            h1 = h\<lparr>arrays := arrays h @ [arrays h ! images]\<rparr>;
            h2 = h1\<lparr>arrays := (arrays h1)
                   [sorted1 := sort_switch localeCompare (\<lambda>r. objects h1 ! r) (arrays h1 ! sorted1) sortOrder]\<rparr>
        in Some (sorted1, h2)
      else None)"

text \<open>
  A consistent comparison function in the sense of ECMAScript, which the language asks
  of \<open>localeCompare\<close>: the signs of \<open>cmp a b\<close> and \<open>cmp b a\<close> are opposite and
  \<open>cmp a b \<le> 0\<close> is transitive.
\<close>

definition consistent_comparator :: "(string \<Rightarrow> string \<Rightarrow> int) \<Rightarrow> bool" where
  "consistent_comparator cmp =
     ((\<forall>a b. (cmp a b < 0) = (cmp b a > 0)) \<and>
      (\<forall>a b c. cmp a b \<le> 0 \<and> cmp b c \<le> 0 \<longrightarrow> cmp a c \<le> 0))"

section \<open>The context enricher\<close>

text \<open>\<open>Array.prototype.join(' ')\<close> on an array of strings.\<close>

fun join_space :: "string list \<Rightarrow> string" where
  "join_space [] = []"
| "join_space [x] = x"
| "join_space (x # y # zs) = x @ '' '' @ join_space (y # zs)"

text \<open>
  \<open>getBlockContext\<close>: three queries in sequence, any failure caught and answered with
  empty strings. The second component lists the queries that were issued: a query after
  a failed one is not.
\<close>

datatype context_query = ParentQuery | ChildrenQuery | SiblingsQuery

definition getBlockContext ::
  "roamAlphaAPI \<Rightarrow> string \<Rightarrow> (string \<times> string \<times> string) \<times> (context_query \<times> string) list" where
  "getBlockContext api uid1 =
     (case parent_q api uid1 of
        Inl error \<Rightarrow> (([], [], []), [(ParentQuery, uid1)])
      | Inr parentResults \<Rightarrow>
          (case children_q api uid1 of
             Inl error \<Rightarrow> (([], [], []), [(ParentQuery, uid1), (ChildrenQuery, uid1)])
           | Inr childrenResults \<Rightarrow>
               (case siblings_q api uid1 of
                  Inl error \<Rightarrow>
                    (([], [], []), [(ParentQuery, uid1), (ChildrenQuery, uid1), (SiblingsQuery, uid1)])
                | Inr siblingsResults \<Rightarrow>
                    ((join_space parentResults, join_space childrenResults,
                      join_space (map fst siblingsResults)),
                     [(ParentQuery, uid1), (ChildrenQuery, uid1), (SiblingsQuery, uid1)]))))"

text \<open>
  The callback of \<open>batch.map\<close> for one record; the record is updated in place, so the
  result is the record afterwards, with the queries issued for it.
\<close>

definition enhance_image ::
  "roamAlphaAPI \<Rightarrow> (string \<Rightarrow> string) \<Rightarrow> image \<Rightarrow> image \<times> (context_query \<times> string) list" where
  "enhance_image api toLowerCase img =
     (if \<not> contextLoaded img then
        (case getBlockContext api (uid img) of
           ((parentContent1, childrenContent1, siblingsContent1), issued) \<Rightarrow>
             (img\<lparr> parentContent := parentContent1,
                     childrenContent := childrenContent1,
                     siblingsContent := siblingsContent1,
                     searchableContent :=
                       toLowerCase (blockContent img @ '' '' @ parentContent1 @ '' '' @
                                    childrenContent1 @ '' '' @ siblingsContent1 @ '' '' @
                                    pageTitle img),
                     contextLoaded := True \<rparr>,
              issued))
      else (img, []))"

text \<open>
  The loop over batches of ten. Inside a batch the callbacks run interleaved under
  \<open>Promise.all\<close>; each reads and writes its own record only and the host answers a
  query by its text, so the records after the batch are those of running the callbacks
  one after the other. The issued queries are kept as a multiset, their order within a
  batch being the host's. The state is the array \<open>images\<close>, the queries issued so far
  and the calls made to \<open>onProgress\<close> (when one is given).
\<close>

function enhance_loop ::
  "roamAlphaAPI \<Rightarrow> (string \<Rightarrow> string) \<Rightarrow> bool \<Rightarrow> nat
     \<Rightarrow> image list \<times> (context_query \<times> string) multiset \<times> (nat \<times> nat) list
     \<Rightarrow> image list \<times> (context_query \<times> string) multiset \<times> (nat \<times> nat) list" where
  "enhance_loop api toLowerCase onProgress i (images, issued, progress) =
     (if i < length images then
        let batch = take (min (i + 10) (length images) - i) (drop i images);
            results = map (enhance_image api toLowerCase) batch;
            images' = take i images @ map fst results @ drop (i + length batch) images;
            issued' = issued + mset (concat (map snd results));
            progress' = (if onProgress
                         then progress @ [(min (i + 10) (length images), length images)]
                         else progress)
        in enhance_loop api toLowerCase onProgress (i + 10) (images', issued', progress')
      else (images, issued, progress))"
  by pat_completeness auto
termination
  by (relation "measure (\<lambda>(api, lw, p, i, images, issued, progress). length images - i)")
     (auto simp: min_def)

declare enhance_loop.simps [simp del]

definition enhanceImagesWithContext ::
  "roamAlphaAPI \<Rightarrow> (string \<Rightarrow> string) \<Rightarrow> bool \<Rightarrow> image list
     \<Rightarrow> image list \<times> (context_query \<times> string) multiset \<times> (nat \<times> nat) list" where
  "enhanceImagesWithContext api toLowerCase onProgress images =
     enhance_loop api toLowerCase onProgress 0 (images, {#}, [])"

section \<open>The search filter\<close>

text \<open>
  The \<open>oninput\<close> handler of the search box. \<open>dataset_allImages\<close> is
  \<open>content.dataset.allImages\<close> (absent, or the list it was serialised from), \<open>value1\<close> the
  text of the box; the result is the list handed to \<open>createImageGrid\<close>.
\<close>

definition searchInput_oninput ::
  "(string \<Rightarrow> string \<Rightarrow> int) \<Rightarrow> (string \<Rightarrow> string) \<Rightarrow> image list option \<Rightarrow> string \<Rightarrow> string
     \<Rightarrow> image list option" where
  "searchInput_oninput localeCompare toLowerCase dataset_allImages SORT_ORDER value1 =
     (let searchTerm = toLowerCase value1
      in case dataset_allImages of
           None \<Rightarrow> None
         | Some allImages \<Rightarrow>
             let filteredImages =
                   (if searchTerm \<noteq> []
                    then filter (\<lambda>img. string_includes (searchableContent img) searchTerm) allImages
                    else allImages)
             in Some (sortImages localeCompare filteredImages SORT_ORDER))"

section \<open>Examples\<close>

text \<open>
  Concrete inputs the theorems are run on. \<open>bytewise_localeCompare\<close> compares strings
  by their bytes; it is a consistent comparison function.
\<close>

definition bytewise_localeCompare :: "string \<Rightarrow> string \<Rightarrow> int" where
  "bytewise_localeCompare a b = (if a < b then - 1 else if b < a then 1 else 0)"

definition example_images :: "image list" where
  "example_images =
     [image_record ascii_toLowerCase ''a'' 0 ''![](x) Tree'' ''Zeta'' [] ''x'',
      image_record ascii_toLowerCase ''b'' 100 ''![](y)'' ''alpha'' [] ''y'',
      image_record ascii_toLowerCase ''c'' 50 ''![](z)'' ''Beta'' [] ''z'',
      image_record ascii_toLowerCase ''d'' 0 ''![](w)'' ''Beta'' [] ''w'',
      image_record ascii_toLowerCase ''e'' 100 ''![](v) tree'' [] [] ''v'']"

definition example_heap :: js_heap where
  "example_heap = \<lparr> arrays = [[0, 1, 2, 3, 4], [4, 2]], objects = example_images \<rparr>"

definition example_markers :: "(string \<times> string \<times> string) list" where
  "example_markers =
     [(''See this: '', ''cat'', ''http://x.com/cat.png''),
      ('' and '', [], '' http://x.com/dog.jpg ''),
      ('' ![x] '', ''w'', ''https://mmbiz.qpic.cn/a.png''),
      ([], ''cat'', ''http://x.com/cat.png'')]"

definition example_api :: "string \<Rightarrow> roamAlphaAPI" where
  "example_api content =
     \<lparr> block_q = (\<lambda>u. if u = ''b1'' then Inr [(content, ''Page'')] else Inl (QueryError u)),
       parent_q = (\<lambda>u. Inr [''parent of '' @ u]),
       children_q = (\<lambda>u. Inr [''Child One'', ''Child Two'']),
       siblings_q = (\<lambda>u. Inr [(''Before'', 0), (''After'', 2)]) \<rparr>"

definition example_batch :: "(string \<times> int) list" where
  "example_batch = [(''b0'', 3), (''b1'', 7), (''b2'', 0)]"

definition example_mixed :: "image list" where
  "example_mixed =
     [(image_record ascii_toLowerCase ''a'' 0 ''![](x) Tree'' ''Zeta'' [] ''x'')
        \<lparr> parentContent := ''Old Parent'', searchableContent := ''old corpus'', contextLoaded := True \<rparr>,
      image_record ascii_toLowerCase ''b'' 100 ''![](y)'' ''Alpha'' [] ''y'']"

section \<open>Properties of the extraction\<close>

lemma extract_matches_None:
  "regex_exec rest = None \<Longrightarrow> extract_matches lw u t c p images rest = images"
  by (subst extract_matches.simps) simp

lemma extract_matches_Some:
  "regex_exec rest = Some (a, url1, r) \<Longrightarrow>
   extract_matches lw u t c p images rest =
   extract_matches lw u t c p
     (if url1 \<noteq> [] \<and> \<not> string_includes (trim url1) ''mmbiz.qpic.cn''
      then images @ [image_record lw u t c p a (trim url1)] else images) r"
  by (subst extract_matches.simps) (simp add: Let_def)

lemma extract_matches_acc:
  "extract_matches lw u t c p images rest = images @ extract_matches lw u t c p [] rest"
proof (induction "length rest" arbitrary: rest images rule: less_induct)
  case less
  show ?case
  proof (cases "regex_exec rest")
    case None
    then show ?thesis by (simp add: extract_matches_None)
  next
    case (Some m)
    obtain a url1 r where m: "regex_exec rest = Some (a, url1, r)"
      using Some by (cases m) auto
    have shorter: "length r < length rest" using m by (rule regex_exec_shorter)
    show ?thesis
      using less[OF shorter, of "images @ [image_record lw u t c p a (trim url1)]"]
            less[OF shorter, of "[image_record lw u t c p a (trim url1)]"]
            less[OF shorter, of images]
      by (simp add: extract_matches_Some[OF m])
  qed
qed

lemma match_here_marker:
  assumes "CHR '']'' \<notin> set a" "u \<noteq> []" "CHR '')'' \<notin> set u"
  shows "match_here (marker a u @ rest) = Some (a, u, rest)"
proof -
  have t1: "takeWhile (\<lambda>c. c \<noteq> CHR '']'') (a @ '']('' @ u @ '')'' @ rest) = a"
    using assms(1) by (subst takeWhile_append2) auto
  have d1: "dropWhile (\<lambda>c. c \<noteq> CHR '']'') (a @ '']('' @ u @ '')'' @ rest) = '']('' @ u @ '')'' @ rest"
    using assms(1) by (subst dropWhile_append2) auto
  have t2: "takeWhile (\<lambda>c. c \<noteq> CHR '')'') (u @ '')'' @ rest) = u"
    using assms(3) by (subst takeWhile_append2) auto
  have d2: "dropWhile (\<lambda>c. c \<noteq> CHR '')'') (u @ '')'' @ rest) = '')'' @ rest"
    using assms(3) by (subst dropWhile_append2) auto
  show ?thesis
    using assms(2) t1 d1 t2 d2 by (simp add: match_here_def marker_def Let_def)
qed

lemma regex_exec_marker:
  assumes "CHR '']'' \<notin> set a" "u \<noteq> []" "CHR '')'' \<notin> set u"
  shows "regex_exec (marker a u @ rest) = Some (a, u, rest)"
proof -
  obtain c s where cs: "marker a u @ rest = c # s" by (simp add: marker_def)
  have "match_here (c # s) = Some (a, u, rest)"
    using match_here_marker[OF assms, of rest] cs by simp
  then show ?thesis using cs by simp
qed

text \<open>
  The matcher is sound and complete for the shape of a marker: it succeeds exactly on
  the texts that begin with a marker, and its captures are that marker's alt and url.
\<close>

lemma match_here_shape:
  assumes m: "match_here s = Some (a, u, r)"
  shows "s = marker a u @ r \<and> CHR '']'' \<notin> set a \<and> u \<noteq> [] \<and> CHR '')'' \<notin> set u"
proof -
  let ?s1 = "drop 2 s"
  let ?s2 = "dropWhile (\<lambda>c. c \<noteq> CHR '']'') ?s1"
  let ?s3 = "drop 2 ?s2"
  let ?s4 = "dropWhile (\<lambda>c. c \<noteq> CHR '')'') ?s3"
  from m have p1: "take 2 s = ''![''"
    by (auto simp: match_here_def Let_def split: if_splits)
  from m p1 have p2: "take 2 ?s2 = [CHR '']'', CHR ''('']"
    by (auto simp: match_here_def Let_def split: if_splits)
  from m p1 p2 have a: "a = takeWhile (\<lambda>c. c \<noteq> CHR '']'') ?s1"
    and u: "u = takeWhile (\<lambda>c. c \<noteq> CHR '')'') ?s3"
    and une: "u \<noteq> []"
    and p3: "take 1 ?s4 = [CHR '')'']"
    and r: "r = drop 1 ?s4"
    by (auto simp: match_here_def Let_def split: if_splits)
  have e1: "s = [CHR ''!'', CHR ''[''] @ ?s1"
    using p1 append_take_drop_id[of 2 s] by simp
  have e2: "?s1 = a @ ?s2"
    unfolding a by simp
  have e3: "?s2 = [CHR '']'', CHR ''(''] @ ?s3"
    using p2 append_take_drop_id[of 2 ?s2] by simp
  have e4: "?s3 = u @ ?s4"
    unfolding u by simp
  have e5: "?s4 = [CHR '')''] @ r"
    using p3 append_take_drop_id[of 1 ?s4] unfolding r by simp
  have "s = [CHR ''!'', CHR ''[''] @ a @ [CHR '']'', CHR ''(''] @ u @ [CHR '')''] @ r"
    using e1 e2 e3 e4 e5 by metis
  then have shape: "s = marker a u @ r" by (simp add: marker_def)
  have na: "CHR '']'' \<notin> set a"
    unfolding a by (auto dest: set_takeWhileD)
  have nu: "CHR '')'' \<notin> set u"
    unfolding u by (auto dest: set_takeWhileD)
  show ?thesis using shape na une nu by simp
qed

lemma match_here_Some_iff:
  "match_here s = Some (a, u, r) \<longleftrightarrow>
     s = marker a u @ r \<and> CHR '']'' \<notin> set a \<and> u \<noteq> [] \<and> CHR '')'' \<notin> set u"
  using match_here_shape[of s a u r] match_here_marker[of a u r] by blast

lemma starts_with_marker_iff: "starts_with_marker s \<longleftrightarrow> match_here s \<noteq> None"
proof
  assume "starts_with_marker s"
  then obtain a u r where "s = marker a u @ r" "CHR '']'' \<notin> set a" "u \<noteq> []" "CHR '')'' \<notin> set u"
    unfolding starts_with_marker_def by blast
  then have "match_here s = Some (a, u, r)" by (simp add: match_here_marker)
  then show "match_here s \<noteq> None" by simp
next
  assume "match_here s \<noteq> None"
  then obtain a u r where "match_here s = Some (a, u, r)" by (cases "match_here s") auto
  then show "starts_with_marker s"
    unfolding starts_with_marker_def using match_here_shape by blast
qed

lemma starts_with_marker_code [code]: "starts_with_marker s = (match_here s \<noteq> None)"
  by (rule starts_with_marker_iff)

lemma match_here_None_iff: "match_here s = None \<longleftrightarrow> \<not> starts_with_marker s"
  using starts_with_marker_iff[of s] by blast

lemma regex_exec_gap:
  "no_marker_starts g rest \<Longrightarrow> regex_exec (g @ rest) = regex_exec rest"
  by (induction g) (simp_all add: match_here_None_iff[symmetric])

lemma no_marker_starts_plain:
  "CHR ''!'' \<notin> set g \<Longrightarrow> no_marker_starts g rest"
  by (induction g) (auto simp: starts_with_marker_def marker_def)

lemma extract_matches_tail:
  "no_marker_starts tail [] \<Longrightarrow> extract_matches lw u t c p images tail = images"
  using regex_exec_gap[of tail "[]"] by (simp add: extract_matches_None)

lemma extract_matches_marked_text:
  "well_formed_markers ms tail \<Longrightarrow>
   extract_matches lw u t c p images (marked_text ms tail) =
   images @ map (\<lambda>(g, a, u1). image_record lw u t c p a (trim u1))
              (filter (\<lambda>(g, a, u1). \<not> string_includes (trim u1) ''mmbiz.qpic.cn'') ms)"
proof (induction ms arbitrary: images)
  case Nil
  then show ?case by (simp add: extract_matches_tail)
next
  case (Cons m ms)
  obtain g a u1 where m: "m = (g, a, u1)" by (cases m) auto
  from Cons.prems m have
    gap: "no_marker_starts g (marker a u1 @ marked_text ms tail)" and
    wf: "CHR '']'' \<notin> set a" "u1 \<noteq> []" "CHR '')'' \<notin> set u1" and
    rest: "well_formed_markers ms tail" by simp_all
  have ex: "regex_exec (marked_text (m # ms) tail) = Some (a, u1, marked_text ms tail)"
    using regex_exec_gap[OF gap] regex_exec_marker[OF wf] m by simp
  have step: "extract_matches lw u t c p images (marked_text (m # ms) tail) =
     extract_matches lw u t c p
       (if u1 \<noteq> [] \<and> \<not> string_includes (trim u1) ''mmbiz.qpic.cn''
        then images @ [image_record lw u t c p a (trim u1)] else images)
       (marked_text ms tail)"
    by (rule extract_matches_Some[OF ex])
  show ?case
    unfolding step using wf(2) m by (simp add: Cons.IH[OF rest])
qed


lemma process_block_acc:
  "process_block api lw images entry =
     (case process_block api lw [] entry of Inl e \<Rightarrow> Inl e | Inr new \<Rightarrow> Inr (images @ new))"
proof -
  obtain u t where e: "entry = (u, t)" by (cases entry) auto
  show ?thesis
    unfolding process_block_def e
    using extract_matches_acc[of lw u t _ _ images]
    by (auto split: sum.splits list.splits)
qed

lemma process_batch_loop_images:
  "fst (process_batch_loop api lw (images, console) uidBatch) =
     images @ concat (map (block_images api lw) uidBatch)"
proof (induction uidBatch arbitrary: images console)
  case Nil
  then show ?case by simp
next
  case (Cons entry uidBatch)
  show ?case
  proof (cases "process_block api lw [] entry")
    case (Inl e)
    then have "process_block api lw images entry = Inl e"
      by (subst process_block_acc) simp
    with Inl show ?thesis by (simp add: Cons.IH block_images_def)
  next
    case (Inr new)
    then have "process_block api lw images entry = Inr (images @ new)"
      by (subst process_block_acc) simp
    with Inr show ?thesis by (simp add: Cons.IH block_images_def)
  qed
qed

lemma process_batch_loop_console:
  "map fst (snd (process_batch_loop api lw (images, console) uidBatch)) =
     map fst console @ map fst (filter (\<lambda>entry. \<not> query_succeeds api entry) uidBatch)"
proof (induction uidBatch arbitrary: images console)
  case Nil
  then show ?case by simp
next
  case (Cons entry uidBatch)
  obtain u t where e: "entry = (u, t)" by (cases entry) auto
  show ?case
    by (cases "block_q api u")
       (auto simp: Cons.IH e process_block_def query_succeeds_def split: list.splits)
qed

lemma block_images_failed:
  "\<not> query_succeeds api entry \<Longrightarrow> block_images api lw entry = []"
  by (cases entry)
     (auto simp: query_succeeds_def block_images_def process_block_def split: sum.splits)

lemma concat_block_images_filter:
  "concat (map (block_images api lw) (filter (query_succeeds api) uidBatch)) =
   concat (map (block_images api lw) uidBatch)"
  by (induction uidBatch) (auto simp: block_images_failed)

text \<open>
  C1. A block text made of \<open>k\<close> well-formed markers \<open>![alt](url)\<close> gives one record for
  each marker whose trimmed url does not hold \<open>mmbiz.qpic.cn\<close>, in the order of the
  markers and with no deduplication; the record's url is the captured url trimmed, its
  alt the captured alt, or \<open>Image\<close> when that is empty; a marker whose url holds the
  denylisted domain gives no record. The hypothesis speaks of the shape of the text only
  (\<open>well_formed_markers\<close>, through \<open>starts_with_marker\<close>); that the matcher finds the
  markers of that shape and nothing else is \<open>match_here_Some_iff\<close>.
\<close>

theorem processImageBatch_extracts_markers:
  assumes q: "block_q api uid1 = Inr ((marked_text ms tail, title) # rows)"
    and wf: "well_formed_markers ms tail"
  shows "fst (processImageBatch api lw [(uid1, ct)]) =
           map (\<lambda>(g, a, u). image_record lw uid1 ct (marked_text ms tail) title a (trim u))
             (filter (\<lambda>(g, a, u). \<not> string_includes (trim u) ''mmbiz.qpic.cn'') ms) \<and>
         map url (fst (processImageBatch api lw [(uid1, ct)])) =
           map (\<lambda>(g, a, u). trim u)
             (filter (\<lambda>(g, a, u). \<not> string_includes (trim u) ''mmbiz.qpic.cn'') ms) \<and>
         map alt (fst (processImageBatch api lw [(uid1, ct)])) =
           map (\<lambda>(g, a, u). if a = [] then ''Image'' else a)
             (filter (\<lambda>(g, a, u). \<not> string_includes (trim u) ''mmbiz.qpic.cn'') ms)"
proof -
  let ?keep = "filter (\<lambda>(g, a, u). \<not> string_includes (trim u) ''mmbiz.qpic.cn'') ms"
  have r: "fst (processImageBatch api lw [(uid1, ct)]) =
           map (\<lambda>(g, a, u). image_record lw uid1 ct (marked_text ms tail) title a (trim u)) ?keep"
    using q extract_matches_marked_text[OF wf, of lw uid1 ct "marked_text ms tail" title "[]"]
    by (simp add: processImageBatch_def process_block_def)
  have u: "map url (map (\<lambda>(g, a, u). image_record lw uid1 ct (marked_text ms tail) title a (trim u)) ?keep)
      = map (\<lambda>(g, a, u). trim u) ?keep"
    by (simp add: image_record_def case_prod_beta o_def)
  have a: "map alt (map (\<lambda>(g, a, u). image_record lw uid1 ct (marked_text ms tail) title a (trim u)) ?keep)
      = map (\<lambda>(g, a, u). if a = [] then ''Image'' else a) ?keep"
    by (simp add: image_record_def case_prod_beta o_def)
  show ?thesis unfolding r using u a by simp
qed

theorem processImageBatch_extracts_markers_witness:
  "well_formed_markers example_markers ''.'' \<and>
   map url (fst (processImageBatch (example_api (marked_text example_markers ''.'')) ascii_toLowerCase [(''b1'', 7)]))
     = [''http://x.com/cat.png'', ''http://x.com/dog.jpg'', ''http://x.com/cat.png''] \<and>
   map alt (fst (processImageBatch (example_api (marked_text example_markers ''.'')) ascii_toLowerCase [(''b1'', 7)]))
     = [''cat'', ''Image'', ''cat'']"
proof -
  have wf: "well_formed_markers example_markers ''.''" by code_simp
  have q: "block_q (example_api (marked_text example_markers ''.'')) ''b1''
             = Inr ((marked_text example_markers ''.'', ''Page'') # [])"
    by (simp add: example_api_def)
  have t1: "trim ''http://x.com/cat.png'' = ''http://x.com/cat.png''" by code_simp
  have t2: "trim '' http://x.com/dog.jpg '' = ''http://x.com/dog.jpg''" by code_simp
  have t3: "trim ''https://mmbiz.qpic.cn/a.png'' = ''https://mmbiz.qpic.cn/a.png''" by code_simp
  have i1: "\<not> string_includes ''http://x.com/cat.png'' ''mmbiz.qpic.cn''" by code_simp
  have i2: "\<not> string_includes ''http://x.com/dog.jpg'' ''mmbiz.qpic.cn''" by code_simp
  have i3: "string_includes ''https://mmbiz.qpic.cn/a.png'' ''mmbiz.qpic.cn''" by code_simp
  note th = processImageBatch_extracts_markers[OF q wf, of ascii_toLowerCase 7]
  have u: "map url (fst (processImageBatch (example_api (marked_text example_markers ''.'')) ascii_toLowerCase [(''b1'', 7)]))
     = [''http://x.com/cat.png'', ''http://x.com/dog.jpg'', ''http://x.com/cat.png'']"
    unfolding th[THEN conjunct2, THEN conjunct1]
    by (simp add: example_markers_def t1 t2 t3 i1 i2 i3)
  have a: "map alt (fst (processImageBatch (example_api (marked_text example_markers ''.'')) ascii_toLowerCase [(''b1'', 7)]))
     = [''cat'', ''Image'', ''cat'']"
    unfolding th[THEN conjunct2, THEN conjunct2]
    by (simp add: example_markers_def t1 t2 t3 i1 i2 i3)
  show ?thesis by (intro conjI) (rule wf, rule u, rule a)
qed

text \<open>
  Trimming is idempotent, so the url of every record is equal to its own trim.
\<close>

lemma strip_leading_fixed:
  "find (\<lambda>w. w \<noteq> [] \<and> prefix w s) ws = None \<Longrightarrow> strip_leading ws s = s"
  by (subst strip_leading.simps) simp

lemma strip_leading_stripped:
  "find (\<lambda>w. w \<noteq> [] \<and> prefix w (strip_leading ws s)) ws = None"
proof (induction ws s rule: strip_leading.induct)
  case (1 ws s)
  show ?case
  proof (cases "find (\<lambda>w. w \<noteq> [] \<and> prefix w s) ws")
    case None
    then show ?thesis by (simp add: strip_leading_fixed)
  next
    case (Some w)
    then have "strip_leading ws s = strip_leading ws (drop (length w) s)"
      by (subst strip_leading.simps) simp
    with 1[OF Some] show ?thesis by simp
  qed
qed

lemma strip_leading_suffix: "suffix (strip_leading ws s) s"
proof (induction ws s rule: strip_leading.induct)
  case (1 ws s)
  show ?case
  proof (cases "find (\<lambda>w. w \<noteq> [] \<and> prefix w s) ws")
    case None
    then show ?thesis by (simp add: strip_leading_fixed)
  next
    case (Some w)
    then have "strip_leading ws s = strip_leading ws (drop (length w) s)"
      by (subst strip_leading.simps) simp
    with 1[OF Some] show ?thesis
      by (metis suffix_drop suffix_order.trans)
  qed
qed

lemma trim_idempotent: "trim (trim s) = trim s"
proof -
  let ?W = js_whitespace
  let ?t = "strip_leading ?W s"
  let ?r' = "strip_leading (map rev ?W) (rev ?t)"
  have tr: "trim s = rev ?r'" by (simp add: trim_def trimStart_def trimEnd_def)
  have "suffix ?r' (rev ?t)" by (rule strip_leading_suffix)
  then have pre: "prefix (rev ?r') ?t" by (metis suffix_to_prefix rev_rev_ident)
  have no_t: "find (\<lambda>w. w \<noteq> [] \<and> prefix w ?t) ?W = None" by (rule strip_leading_stripped)
  have "find (\<lambda>w. w \<noteq> [] \<and> prefix w (rev ?r')) ?W = None"
    unfolding find_None_iff
  proof (intro notI)
    assume "\<exists>w. w \<in> set ?W \<and> w \<noteq> [] \<and> prefix w (rev ?r')"
    then obtain w where "w \<in> set ?W" "w \<noteq> []" "prefix w (rev ?r')" by blast
    with pre have "w \<in> set ?W \<and> w \<noteq> [] \<and> prefix w ?t" by (meson prefix_order.trans)
    with no_t show False unfolding find_None_iff by blast
  qed
  then have s1: "strip_leading ?W (rev ?r') = rev ?r'" by (rule strip_leading_fixed)
  have "find (\<lambda>w. w \<noteq> [] \<and> prefix w ?r') (map rev ?W) = None" by (rule strip_leading_stripped)
  then have s2: "strip_leading (map rev ?W) ?r' = ?r'" by (rule strip_leading_fixed)
  show ?thesis
    unfolding tr by (simp add: trim_def trimStart_def trimEnd_def s1 s2)
qed

lemma extract_matches_urls_trimmed:
  "\<forall>r\<in>set images. trim (url r) = url r \<Longrightarrow>
   \<forall>r\<in>set (extract_matches lw u t c p images rest). trim (url r) = url r"
proof (induction "length rest" arbitrary: rest images rule: less_induct)
  case less
  show ?case
  proof (cases "regex_exec rest")
    case None
    with less.prems show ?thesis by (simp add: extract_matches_None)
  next
    case (Some m)
    obtain a url1 r where m: "regex_exec rest = Some (a, url1, r)"
      using Some by (cases m) auto
    have shorter: "length r < length rest" using m by (rule regex_exec_shorter)
    have "\<forall>x\<in>set (if url1 \<noteq> [] \<and> \<not> string_includes (trim url1) ''mmbiz.qpic.cn''
      then images @ [image_record lw u t c p a (trim url1)] else images). trim (url x) = url x"
      using less.prems by (simp add: image_record_def trim_idempotent)
    from less.hyps[OF shorter this] show ?thesis
      by (simp add: extract_matches_Some[OF m])
  qed
qed

lemma processImageBatch_urls_trimmed:
  "\<forall>r\<in>set (fst (processImageBatch api lw uidBatch)). trim (url r) = url r"
proof -
  have blk: "\<forall>r\<in>set (block_images api lw entry). trim (url r) = url r" for entry
  proof (cases entry)
    case (Pair u t)
    show ?thesis
      using extract_matches_urls_trimmed[of "[]" lw u t]
      by (auto simp: Pair block_images_def process_block_def split: sum.splits list.splits)
  qed
  show ?thesis
    by (auto simp: processImageBatch_def process_batch_loop_images dest: blk[rule_format])
qed

text \<open>
  C2. Every record has a url that is non-blank and trimmed. The url of every record is
  trimmed (\<open>processImageBatch_urls_trimmed\<close>), but the code tests the captured url
  before it trims it, so a marker whose url is only white space gives a record whose url
  is the empty string: the block text \<open>![a]( )\<close> does.
\<close>

theorem processImageBatch_blank_url:
  "map url (fst (processImageBatch (example_api ''![a]( )'') ascii_toLowerCase [(''b1'', 7)])) = [[]]"
  by code_simp

text \<open>
  C6. When the query of some blocks of a batch raises, \<open>processImageBatch\<close> still returns
  the records of every block whose query succeeded, in batch order; the failed blocks
  give no record and an entry in the console, and the result is the one of the batch
  without them.
\<close>

theorem processImageBatch_omits_failed_blocks:
  "fst (processImageBatch api lw uidBatch) =
     concat (map (block_images api lw) (filter (query_succeeds api) uidBatch)) \<and>
   fst (processImageBatch api lw uidBatch) =
     fst (processImageBatch api lw (filter (query_succeeds api) uidBatch)) \<and>
   map fst (snd (processImageBatch api lw uidBatch)) =
     map fst (filter (\<lambda>entry. \<not> query_succeeds api entry) uidBatch)"
proof -
  have a: "fst (processImageBatch api lw uidBatch) = concat (map (block_images api lw) uidBatch)"
    by (simp add: processImageBatch_def process_batch_loop_images)
  have b: "fst (processImageBatch api lw (filter (query_succeeds api) uidBatch)) =
      concat (map (block_images api lw) (filter (query_succeeds api) uidBatch))"
    by (simp add: processImageBatch_def process_batch_loop_images)
  have c: "map fst (snd (processImageBatch api lw uidBatch)) =
     map fst (filter (\<lambda>entry. \<not> query_succeeds api entry) uidBatch)"
    by (simp add: processImageBatch_def process_batch_loop_console)
  show ?thesis using a b c by (simp add: concat_block_images_filter)
qed

theorem processImageBatch_omits_failed_blocks_witness:
  "map url (fst (processImageBatch (example_api ''![a](u1) ![b](u2)'') ascii_toLowerCase example_batch))
     = [''u1'', ''u2''] \<and>
   map fst (snd (processImageBatch (example_api ''![a](u1) ![b](u2)'') ascii_toLowerCase example_batch))
     = [''b0'', ''b2'']"
proof -
  note th = processImageBatch_omits_failed_blocks
    [of "example_api ''![a](u1) ![b](u2)''" ascii_toLowerCase example_batch]
  have "map url (concat (map (block_images (example_api ''![a](u1) ![b](u2)'') ascii_toLowerCase)
          (filter (query_succeeds (example_api ''![a](u1) ![b](u2)'')) example_batch))) = [''u1'', ''u2'']"
    by code_simp
  moreover have "map fst (filter (\<lambda>entry. \<not> query_succeeds (example_api ''![a](u1) ![b](u2)'') entry)
          example_batch) = [''b0'', ''b2'']"
    by code_simp
  ultimately show ?thesis using th by simp
qed

section \<open>Properties of the sorter\<close>

lemma mset_insert_sorted: "mset (insert_sorted c x ys) = add_mset x (mset ys)"
  by (induction ys) auto

lemma mset_array_sort: "mset (array_sort c xs) = mset xs"
  by (induction xs) (auto simp: array_sort_def mset_insert_sorted)

lemma set_insert_sorted: "set (insert_sorted c x ys) = insert x (set ys)"
  by (induction ys) auto

lemma sorted_insert_sorted:
  assumes total: "\<And>a b. c a b > 0 \<Longrightarrow> c b a \<le> 0"
    and trans: "\<And>a b d. c a b \<le> 0 \<Longrightarrow> c b d \<le> 0 \<Longrightarrow> c a d \<le> 0"
    and srt: "sorted_wrt (\<lambda>a b. c a b \<le> 0) ys"
  shows "sorted_wrt (\<lambda>a b. c a b \<le> 0) (insert_sorted c x ys)"
  using srt
proof (induction ys)
  case Nil
  then show ?case by simp
next
  case (Cons y ys)
  show ?case
  proof (cases "c x y > 0")
    case True
    then have "c y x \<le> 0" by (rule total)
    with True Cons show ?thesis by (auto simp: set_insert_sorted)
  next
    case False
    then have xy: "c x y \<le> 0" by simp
    have "\<forall>z\<in>set ys. c x z \<le> 0"
    proof
      fix z assume "z \<in> set ys"
      with Cons.prems have "c y z \<le> 0" by simp
      with xy show "c x z \<le> 0" by (rule trans)
    qed
    with False xy Cons.prems show ?thesis by simp
  qed
qed

lemma sorted_array_sort:
  assumes total: "\<And>a b. c a b > 0 \<Longrightarrow> c b a \<le> 0"
    and trans: "\<And>a b d. c a b \<le> 0 \<Longrightarrow> c b d \<le> 0 \<Longrightarrow> c a d \<le> 0"
  shows "sorted_wrt (\<lambda>a b. c a b \<le> 0) (array_sort c xs)"
proof (induction xs)
  case Nil
  then show ?case by (simp add: array_sort_def)
next
  case (Cons x xs)
  have "array_sort c (x # xs) = insert_sorted c x (array_sort c xs)"
    by (simp add: array_sort_def)
  then show ?case
    using sorted_insert_sorted[of c "array_sort c xs" x, OF total trans Cons.IH] by simp
qed

lemma filter_insert_sorted:
  assumes "\<And>y. P x \<Longrightarrow> P y \<Longrightarrow> c x y \<le> 0"
  shows "filter P (insert_sorted c x ys) = (if P x then x # filter P ys else filter P ys)"
  using assms by (induction ys) (auto simp: not_less[symmetric] simp del: not_less)

lemma filter_array_sort:
  assumes "\<And>x y. P x \<Longrightarrow> P y \<Longrightarrow> c x y \<le> 0"
  shows "filter P (array_sort c xs) = filter P xs"
proof (induction xs)
  case Nil
  then show ?case by (simp add: array_sort_def)
next
  case (Cons x xs)
  have "array_sort c (x # xs) = insert_sorted c x (array_sort c xs)"
    by (simp add: array_sort_def)
  then show ?case
    using filter_insert_sorted[of P x c "array_sort c xs"] assms Cons.IH by simp
qed

lemma map_insert_sorted:
  "map f (insert_sorted (\<lambda>a b. c (f a) (f b)) x ys) = insert_sorted c (f x) (map f ys)"
  by (induction ys) auto

lemma map_array_sort:
  "map f (array_sort (\<lambda>a b. c (f a) (f b)) xs) = array_sort c (map f xs)"
  by (induction xs) (auto simp: array_sort_def map_insert_sorted)

lemma map_sort_switch:
  "map get (sort_switch lc get xs sortOrder) = sortImages lc (map get xs) sortOrder"
proof -
  let ?newest = "\<lambda>a b. if createTime a = None \<and> createTime b = None then 0
          else if createTime a = None then 1
          else if createTime b = None then - 1
          else the (createTime b) - the (createTime a)"
  let ?oldest = "\<lambda>a b. if createTime a = None \<and> createTime b = None then 0
          else if createTime a = None then 1
          else if createTime b = None then - 1
          else the (createTime a) - the (createTime b)"
  let ?alpha = "\<lambda>a b. lc (pageTitle a) (pageTitle b)"
  let ?reverse = "\<lambda>a b. lc (pageTitle b) (pageTitle a)"
  note m = map_array_sort[where f = get and xs = xs]
  show ?thesis
    unfolding sortImages_def sort_switch_def
    using m[where c = ?newest] m[where c = ?oldest] m[where c = ?alpha] m[where c = ?reverse]
    by simp
qed

lemma sorted_newest:
  "sorted_wrt (\<lambda>a b. (\<forall>s t. createTime a = Some s \<and> createTime b = Some t \<longrightarrow> t \<le> s) \<and>
                      (createTime a = None \<longrightarrow> createTime b = None))
     (sortImages lc images ''newest'')"
proof -
  let ?c = "\<lambda>a b :: image. if createTime a = None \<and> createTime b = None then 0
          else if createTime a = None then 1
          else if createTime b = None then - 1
          else the (createTime b) - the (createTime a) :: int"
  have "sorted_wrt (\<lambda>a b. ?c a b \<le> 0) (array_sort ?c images)"
    by (rule sorted_array_sort) (auto split: if_splits)
  then have "sorted_wrt (\<lambda>a b. (\<forall>s t. createTime a = Some s \<and> createTime b = Some t \<longrightarrow> t \<le> s) \<and>
                      (createTime a = None \<longrightarrow> createTime b = None)) (array_sort ?c images)"
    by (rule sorted_wrt_mono_rel[rotated]) (auto split: if_splits)
  then show ?thesis by (simp add: sortImages_def sort_switch_def)
qed

lemma sorted_oldest:
  "sorted_wrt (\<lambda>a b. (\<forall>s t. createTime a = Some s \<and> createTime b = Some t \<longrightarrow> s \<le> t) \<and>
                      (createTime a = None \<longrightarrow> createTime b = None))
     (sortImages lc images ''oldest'')"
proof -
  let ?c = "\<lambda>a b :: image. if createTime a = None \<and> createTime b = None then 0
          else if createTime a = None then 1
          else if createTime b = None then - 1
          else the (createTime a) - the (createTime b) :: int"
  have "sorted_wrt (\<lambda>a b. ?c a b \<le> 0) (array_sort ?c images)"
    by (rule sorted_array_sort) (auto split: if_splits)
  then have "sorted_wrt (\<lambda>a b. (\<forall>s t. createTime a = Some s \<and> createTime b = Some t \<longrightarrow> s \<le> t) \<and>
                      (createTime a = None \<longrightarrow> createTime b = None)) (array_sort ?c images)"
    by (rule sorted_wrt_mono_rel[rotated]) (auto split: if_splits)
  then show ?thesis by (simp add: sortImages_def sort_switch_def)
qed

lemma nulls_newest:
  "filter (\<lambda>r. createTime r = None) (sortImages lc images ''newest'') =
   filter (\<lambda>r. createTime r = None) images"
  unfolding sortImages_def sort_switch_def
  by (simp, rule filter_array_sort) simp

lemma nulls_oldest:
  "filter (\<lambda>r. createTime r = None) (sortImages lc images ''oldest'') =
   filter (\<lambda>r. createTime r = None) images"
  unfolding sortImages_def sort_switch_def
  by (simp, rule filter_array_sort) simp

lemma mset_sortImages: "mset (sortImages lc images sortOrder) = mset images"
  by (simp add: sortImages_def sort_switch_def mset_array_sort)

lemma consistent_bytewise: "consistent_comparator bytewise_localeCompare"
  by (auto simp: consistent_comparator_def bytewise_localeCompare_def split: if_splits)

lemma string_includes_empty: "string_includes s []"
  by (induction s) auto

text \<open>
  C3. With \<open>newest\<close> any two records with a timestamp come out in descending order of
  \<open>createTime\<close>, with \<open>oldest\<close> in ascending order; in both modes every record without
  a timestamp comes after every record with one, and the records without a timestamp
  keep their input order. The output is a reordering of the input. The list
  \<open>[null, 100, 50]\<close> gives \<open>[100, 50, null]\<close> and \<open>[50, 100, null]\<close>.
\<close>

theorem sortImages_by_createTime:
  "sorted_wrt (\<lambda>a b. (\<forall>s t. createTime a = Some s \<and> createTime b = Some t \<longrightarrow> t \<le> s) \<and>
                      (createTime a = None \<longrightarrow> createTime b = None))
     (sortImages lc images ''newest'') \<and>
   sorted_wrt (\<lambda>a b. (\<forall>s t. createTime a = Some s \<and> createTime b = Some t \<longrightarrow> s \<le> t) \<and>
                      (createTime a = None \<longrightarrow> createTime b = None))
     (sortImages lc images ''oldest'') \<and>
   filter (\<lambda>r. createTime r = None) (sortImages lc images ''newest'') =
     filter (\<lambda>r. createTime r = None) images \<and>
   filter (\<lambda>r. createTime r = None) (sortImages lc images ''oldest'') =
     filter (\<lambda>r. createTime r = None) images \<and>
   mset (sortImages lc images ''newest'') = mset images \<and>
   mset (sortImages lc images ''oldest'') = mset images \<and>
   sortImages lc [r\<lparr>createTime := None\<rparr>, r\<lparr>createTime := Some 100\<rparr>, r\<lparr>createTime := Some 50\<rparr>] ''newest''
     = [r\<lparr>createTime := Some 100\<rparr>, r\<lparr>createTime := Some 50\<rparr>, r\<lparr>createTime := None\<rparr>] \<and>
   sortImages lc [r\<lparr>createTime := None\<rparr>, r\<lparr>createTime := Some 100\<rparr>, r\<lparr>createTime := Some 50\<rparr>] ''oldest''
     = [r\<lparr>createTime := Some 50\<rparr>, r\<lparr>createTime := Some 100\<rparr>, r\<lparr>createTime := None\<rparr>]"
proof -
  have e1: "sortImages lc [r\<lparr>createTime := None\<rparr>, r\<lparr>createTime := Some 100\<rparr>, r\<lparr>createTime := Some 50\<rparr>] ''newest''
     = [r\<lparr>createTime := Some 100\<rparr>, r\<lparr>createTime := Some 50\<rparr>, r\<lparr>createTime := None\<rparr>]"
    by (simp add: sortImages_def sort_switch_def array_sort_def)
  have e2: "sortImages lc [r\<lparr>createTime := None\<rparr>, r\<lparr>createTime := Some 100\<rparr>, r\<lparr>createTime := Some 50\<rparr>] ''oldest''
     = [r\<lparr>createTime := Some 50\<rparr>, r\<lparr>createTime := Some 100\<rparr>, r\<lparr>createTime := None\<rparr>]"
    by (simp add: sortImages_def sort_switch_def array_sort_def)
  show ?thesis
    by (intro conjI) (rule sorted_newest sorted_oldest nulls_newest nulls_oldest mset_sortImages e1 e2)+
qed

theorem sortImages_by_createTime_witness:
  "filter (\<lambda>r. createTime r = None) (sortImages bytewise_localeCompare example_images ''newest'') =
     filter (\<lambda>r. createTime r = None) example_images \<and>
   map uid (sortImages bytewise_localeCompare example_images ''newest'') = [''b'', ''e'', ''c'', ''a'', ''d''] \<and>
   map uid (sortImages bytewise_localeCompare example_images ''oldest'') = [''c'', ''b'', ''e'', ''a'', ''d'']"
proof -
  have "filter (\<lambda>r. createTime r = None) (sortImages bytewise_localeCompare example_images ''newest'') =
     filter (\<lambda>r. createTime r = None) example_images"
    using sortImages_by_createTime[of bytewise_localeCompare example_images] by blast
  moreover have "map uid (sortImages bytewise_localeCompare example_images ''newest'') = [''b'', ''e'', ''c'', ''a'', ''d'']"
    by code_simp
  moreover have "map uid (sortImages bytewise_localeCompare example_images ''oldest'') = [''c'', ''b'', ''e'', ''a'', ''d'']"
    by code_simp
  ultimately show ?thesis by (intro conjI)
qed

text \<open>
  C4. \<open>sortImages\<close> leaves its input unchanged: the call returns a new array, the input
  array and every other array of the store hold the same references in the same order
  as before, no object is written, and the new array is the sorted input.
\<close>

theorem sortImages_leaves_input_unchanged:
  assumes "images < length (arrays h)"
  shows "\<exists>sorted1 h'.
           sortImages_heap lc h images sortOrder = Some (sorted1, h') \<and>
           sorted1 \<noteq> images \<and>
           arrays h' ! images = arrays h ! images \<and>
           take (length (arrays h)) (arrays h') = arrays h \<and>
           objects h' = objects h \<and>
           map (\<lambda>r. objects h' ! r) (arrays h' ! sorted1) =
             sortImages lc (map (\<lambda>r. objects h ! r) (arrays h ! images)) sortOrder"
proof -
  let ?s = "length (arrays h)"
  let ?h1 = "h\<lparr>arrays := arrays h @ [arrays h ! images]\<rparr>"
  let ?out = "sort_switch lc (\<lambda>r. objects ?h1 ! r) (arrays ?h1 ! ?s) sortOrder"
  let ?h2 = "?h1\<lparr>arrays := (arrays ?h1)[?s := ?out]\<rparr>"
  have run: "sortImages_heap lc h images sortOrder = Some (?s, ?h2)"
    using assms by (simp add: sortImages_heap_def Let_def)
  have copy: "arrays ?h1 ! ?s = arrays h ! images" by simp
  have same: "arrays ?h2 ! images = arrays h ! images"
    using assms by (simp add: nth_append)
  have frame: "take ?s (arrays ?h2) = arrays h" by simp
  have res: "arrays ?h2 ! ?s = sort_switch lc (\<lambda>r. objects h ! r) (arrays h ! images) sortOrder"
    by simp
  have val: "map (\<lambda>r. objects ?h2 ! r) (arrays ?h2 ! ?s) =
             sortImages lc (map (\<lambda>r. objects h ! r) (arrays h ! images)) sortOrder"
    unfolding res using map_sort_switch[of "\<lambda>r. objects h ! r" lc "arrays h ! images" sortOrder]
    by simp
  have ne: "?s \<noteq> images" using assms by simp
  have obj: "objects ?h2 = objects h" by simp
  show ?thesis using run ne same frame obj val by blast
qed

theorem sortImages_leaves_input_unchanged_witness:
  "(1::nat) < length (arrays example_heap) \<and>
   (\<exists>sorted1 h'.
      sortImages_heap bytewise_localeCompare example_heap 1 ''newest'' = Some (sorted1, h') \<and>
      sorted1 \<noteq> 1 \<and>
      arrays h' ! 1 = arrays example_heap ! 1 \<and>
      take (length (arrays example_heap)) (arrays h') = arrays example_heap \<and>
      objects h' = objects example_heap \<and>
      map (\<lambda>r. objects h' ! r) (arrays h' ! sorted1) =
        sortImages bytewise_localeCompare
          (map (\<lambda>r. objects example_heap ! r) (arrays example_heap ! 1)) ''newest'') \<and>
   sortImages_heap bytewise_localeCompare example_heap 1 ''oldest'' =
     Some (2, \<lparr> arrays = [[0, 1, 2, 3, 4], [4, 2], [2, 4]], objects = example_images \<rparr>)"
proof -
  have h: "(1::nat) < length (arrays example_heap)" by (simp add: example_heap_def)
  have e: "sortImages_heap bytewise_localeCompare example_heap 1 ''oldest'' =
     Some (2, \<lparr> arrays = [[0, 1, 2, 3, 4], [4, 2], [2, 4]], objects = example_images \<rparr>)"
    by code_simp
  show ?thesis
    using h sortImages_leaves_input_unchanged[OF h, of bytewise_localeCompare "''newest''"] e
    by (intro conjI)
qed

text \<open>
  C5. For a search term \<open>T\<close> the filter gives exactly the records whose
  \<open>searchableContent\<close> holds the lowercased \<open>T\<close> as a substring, sorted by the current
  mode; with the empty term it gives the whole list, sorted, with the same members. The
  handler reads only \<open>searchableContent\<close>, whatever \<open>contextLoaded\<close> is, and always
  produces a list.
\<close>

theorem search_filter_selects_matching_records:
  "searchInput_oninput lc lw (Some allImages) sortOrder T =
     Some (sortImages lc (filter (\<lambda>img. string_includes (searchableContent img) (lw T)) allImages) sortOrder) \<and>
   mset (the (searchInput_oninput lc lw (Some allImages) sortOrder T)) =
     mset (filter (\<lambda>img. string_includes (searchableContent img) (lw T)) allImages) \<and>
   (lw [] = [] \<longrightarrow>
      searchInput_oninput lc lw (Some allImages) sortOrder [] = Some (sortImages lc allImages sortOrder) \<and>
      mset (the (searchInput_oninput lc lw (Some allImages) sortOrder [])) = mset allImages)"
proof -
  have a: "searchInput_oninput lc lw (Some allImages) sortOrder T =
     Some (sortImages lc (filter (\<lambda>img. string_includes (searchableContent img) (lw T)) allImages) sortOrder)"
    by (simp add: searchInput_oninput_def Let_def string_includes_empty)
  have b: "lw [] = [] \<Longrightarrow>
      searchInput_oninput lc lw (Some allImages) sortOrder [] = Some (sortImages lc allImages sortOrder)"
    by (simp add: searchInput_oninput_def Let_def)
  show ?thesis using a b by (simp add: mset_sortImages del: mset_filter)
qed

theorem search_filter_selects_matching_records_witness:
  "ascii_toLowerCase [] = [] \<and>
   map uid (the (searchInput_oninput bytewise_localeCompare ascii_toLowerCase (Some example_images) ''oldest'' ''TREE''))
     = [''e'', ''a''] \<and>
   map uid (the (searchInput_oninput bytewise_localeCompare ascii_toLowerCase (Some example_images) ''oldest'' []))
     = [''c'', ''b'', ''e'', ''a'', ''d'']"
proof -
  have l: "ascii_toLowerCase [] = []" by (simp add: ascii_toLowerCase_def)
  note th = search_filter_selects_matching_records
    [of bytewise_localeCompare ascii_toLowerCase example_images "''oldest''" "''TREE''"]
  have e1: "map uid (sortImages bytewise_localeCompare
       (filter (\<lambda>img. string_includes (searchableContent img) (ascii_toLowerCase ''TREE'')) example_images) ''oldest'')
     = [''e'', ''a'']"
    by code_simp
  have e2: "map uid (sortImages bytewise_localeCompare example_images ''oldest'') = [''c'', ''b'', ''e'', ''a'', ''d'']"
    by code_simp
  show ?thesis using l th e1 e2 by simp
qed

text \<open>
  C8. A mode that is none of \<open>newest\<close>, \<open>oldest\<close>, \<open>page-alpha\<close>, \<open>page-reverse\<close> sorts
  as \<open>newest\<close> does.
\<close>

theorem sortImages_unknown_mode:
  "sortOrder \<notin> {''newest'', ''oldest'', ''page-alpha'', ''page-reverse''} \<Longrightarrow>
   sortImages lc images sortOrder = sortImages lc images ''newest''"
  by (simp add: sortImages_def sort_switch_def)

theorem sortImages_unknown_mode_witness:
  "''random'' \<notin> {''newest'', ''oldest'', ''page-alpha'', ''page-reverse''} \<and>
   sortImages bytewise_localeCompare example_images ''random'' =
     sortImages bytewise_localeCompare example_images ''newest'' \<and>
   map uid (sortImages bytewise_localeCompare example_images ''random'') = [''b'', ''e'', ''c'', ''a'', ''d'']"
proof -
  have m: "''random'' \<notin> {''newest'', ''oldest'', ''page-alpha'', ''page-reverse''}" by simp
  have e: "map uid (sortImages bytewise_localeCompare example_images ''newest'') = [''b'', ''e'', ''c'', ''a'', ''d'']"
    by code_simp
  show ?thesis
    using m sortImages_unknown_mode[OF m, of bytewise_localeCompare example_images] e by simp
qed

text \<open>
  C9. With \<open>page-alpha\<close> any two records come out in ascending order of the locale
  comparison of their \<open>pageTitle\<close>, with \<open>page-reverse\<close> in descending order, for a
  \<open>localeCompare\<close> that is a consistent comparison function.
\<close>

theorem sortImages_by_pageTitle:
  assumes "consistent_comparator lc"
  shows "sorted_wrt (\<lambda>a b. lc (pageTitle a) (pageTitle b) \<le> 0) (sortImages lc images ''page-alpha'') \<and>
         sorted_wrt (\<lambda>a b. lc (pageTitle a) (pageTitle b) \<ge> 0) (sortImages lc images ''page-reverse'') \<and>
         mset (sortImages lc images ''page-alpha'') = mset images \<and>
         mset (sortImages lc images ''page-reverse'') = mset images"
proof -
  from assms have anti: "\<And>a b. (lc a b < 0) = (lc b a > 0)"
    and trans: "\<And>a b c. lc a b \<le> 0 \<Longrightarrow> lc b c \<le> 0 \<Longrightarrow> lc a c \<le> 0"
    unfolding consistent_comparator_def by blast+
  have total: "\<And>a b. lc a b > 0 \<Longrightarrow> lc b a \<le> 0" using anti by (simp add: less_imp_le)
  let ?alpha = "\<lambda>a b :: image. lc (pageTitle a) (pageTitle b)"
  let ?reverse = "\<lambda>a b :: image. lc (pageTitle b) (pageTitle a)"
  have "sorted_wrt (\<lambda>a b. ?alpha a b \<le> 0) (array_sort ?alpha images)"
    by (rule sorted_array_sort) (auto intro: total trans)
  then have a: "sorted_wrt (\<lambda>a b. lc (pageTitle a) (pageTitle b) \<le> 0) (sortImages lc images ''page-alpha'')"
    by (simp add: sortImages_def sort_switch_def)
  have "sorted_wrt (\<lambda>a b. ?reverse a b \<le> 0) (array_sort ?reverse images)"
    by (rule sorted_array_sort) (auto intro: total trans)
  then have "sorted_wrt (\<lambda>a b. lc (pageTitle a) (pageTitle b) \<ge> 0) (array_sort ?reverse images)"
  proof (rule sorted_wrt_mono_rel[rotated])
    fix x y :: image
    assume "lc (pageTitle y) (pageTitle x) \<le> 0"
    then have "\<not> lc (pageTitle y) (pageTitle x) > 0" by simp
    then have "\<not> lc (pageTitle x) (pageTitle y) < 0" using anti by simp
    then show "lc (pageTitle x) (pageTitle y) \<ge> 0" by simp
  qed
  then have b: "sorted_wrt (\<lambda>a b. lc (pageTitle a) (pageTitle b) \<ge> 0) (sortImages lc images ''page-reverse'')"
    by (simp add: sortImages_def sort_switch_def)
  show ?thesis using a b by (simp add: mset_sortImages)
qed

theorem sortImages_by_pageTitle_witness:
  "consistent_comparator bytewise_localeCompare \<and>
   sorted_wrt (\<lambda>a b. bytewise_localeCompare (pageTitle a) (pageTitle b) \<le> 0)
     (sortImages bytewise_localeCompare example_images ''page-alpha'') \<and>
   map uid (sortImages bytewise_localeCompare example_images ''page-alpha'') = [''c'', ''d'', ''e'', ''a'', ''b''] \<and>
   map uid (sortImages bytewise_localeCompare example_images ''page-reverse'') = [''b'', ''a'', ''e'', ''c'', ''d'']"
proof -
  have "sorted_wrt (\<lambda>a b. bytewise_localeCompare (pageTitle a) (pageTitle b) \<le> 0)
     (sortImages bytewise_localeCompare example_images ''page-alpha'')"
    using sortImages_by_pageTitle[OF consistent_bytewise, of example_images] by blast
  moreover have "map uid (sortImages bytewise_localeCompare example_images ''page-alpha'') = [''c'', ''d'', ''e'', ''a'', ''b'']"
    by code_simp
  moreover have "map uid (sortImages bytewise_localeCompare example_images ''page-reverse'') = [''b'', ''a'', ''e'', ''c'', ''d'']"
    by code_simp
  ultimately show ?thesis using consistent_bytewise by (intro conjI)
qed

section \<open>Properties of the enricher\<close>

lemma enhance_batch_step:
  fixes images :: "image list" and f :: "image \<Rightarrow> image"
  assumes "i < length images"
  shows "length (take i images @ map f (take (min (i + 10) (length images) - i) (drop i images)) @
           drop (i + length (take (min (i + 10) (length images) - i) (drop i images))) images)
         = length images"
    and "take (i + 10) (take i images @ map f (take (min (i + 10) (length images) - i) (drop i images)) @
           drop (i + length (take (min (i + 10) (length images) - i) (drop i images))) images)
         = take i images @ map f (take (min (i + 10) (length images) - i) (drop i images))"
    and "drop (i + 10) (take i images @ map f (take (min (i + 10) (length images) - i) (drop i images)) @
           drop (i + length (take (min (i + 10) (length images) - i) (drop i images))) images)
         = drop (i + 10) images"
    and "take (min (i + 10) (length images) - i) (drop i images) @ drop (i + 10) images = drop i images"
proof -
  show "length (take i images @ map f (take (min (i + 10) (length images) - i) (drop i images)) @
           drop (i + length (take (min (i + 10) (length images) - i) (drop i images))) images)
         = length images"
    using assms by (auto simp: min_def)
  show "take (i + 10) (take i images @ map f (take (min (i + 10) (length images) - i) (drop i images)) @
           drop (i + length (take (min (i + 10) (length images) - i) (drop i images))) images)
         = take i images @ map f (take (min (i + 10) (length images) - i) (drop i images))"
    using assms by (auto simp: min_def)
  show "drop (i + 10) (take i images @ map f (take (min (i + 10) (length images) - i) (drop i images)) @
           drop (i + length (take (min (i + 10) (length images) - i) (drop i images))) images)
         = drop (i + 10) images"
    using assms by (auto simp: min_def add.commute)
  show "take (min (i + 10) (length images) - i) (drop i images) @ drop (i + 10) images = drop i images"
  proof (cases "i + 10 \<le> length images")
    case True
    have "take 10 (drop i images) @ drop 10 (drop i images) = drop i images"
      by (rule append_take_drop_id)
    moreover have "drop 10 (drop i images) = drop (i + 10) images"
      by (simp add: add.commute)
    moreover have "min (i + 10) (length images) - i = 10" using True by (simp add: min_def)
    ultimately show ?thesis by metis
  next
    case False
    then show ?thesis by (simp add: min_def)
  qed
qed

lemma enhance_loop_run:
  "fst (enhance_loop api lw p i (images, issued, progress)) =
     take i images @ map (\<lambda>im. fst (enhance_image api lw im)) (drop i images) \<and>
   fst (snd (enhance_loop api lw p i (images, issued, progress))) =
     issued + mset (concat (map (\<lambda>im. snd (enhance_image api lw im)) (drop i images)))"
proof (induction "length images - i" arbitrary: i images issued progress rule: less_induct)
  case less
  show ?case
  proof (cases "i < length images")
    case False
    then show ?thesis by (simp add: enhance_loop.simps)
  next
    case True
    define batch where "batch = take (min (i + 10) (length images) - i) (drop i images)"
    define images' where
      "images' = take i images @ map (\<lambda>im. fst (enhance_image api lw im)) batch @ drop (i + length batch) images"
    define issued' where
      "issued' = issued + mset (concat (map (\<lambda>im. snd (enhance_image api lw im)) batch))"
    define progress' where
      "progress' = (if p then progress @ [(min (i + 10) (length images), length images)] else progress)"
    have st:
      "length images' = length images"
      "take (i + 10) images' = take i images @ map (\<lambda>im. fst (enhance_image api lw im)) batch"
      "drop (i + 10) images' = drop (i + 10) images"
      "batch @ drop (i + 10) images = drop i images"
      unfolding images'_def batch_def by (rule enhance_batch_step[OF True])+
    have unfold: "enhance_loop api lw p i (images, issued, progress) =
        enhance_loop api lw p (i + 10) (images', issued', progress')"
      using True
      by (subst enhance_loop.simps)
         (simp add: Let_def batch_def images'_def issued'_def progress'_def o_def)
    have smaller: "length images' - (i + 10) < length images - i"
      using True st(1) by simp
    note ih = less[OF smaller, of issued' progress']
    have rest_same: "map g (drop i images) = map g batch @ map g (drop (i + 10) images)" for g :: "image \<Rightarrow> 'b"
      using st(4) by (metis map_append)
    have a: "fst (enhance_loop api lw p i (images, issued, progress)) =
       take i images @ map (\<lambda>im. fst (enhance_image api lw im)) (drop i images)"
      unfolding unfold using ih st(2,3) rest_same[of "\<lambda>im. fst (enhance_image api lw im)"]
      by (metis append_assoc append_take_drop_id)
    have b: "fst (snd (enhance_loop api lw p i (images, issued, progress))) =
       issued + mset (concat (map (\<lambda>im. snd (enhance_image api lw im)) (drop i images)))"
      unfolding unfold using ih st(3) rest_same[of "\<lambda>im. snd (enhance_image api lw im)"]
      by (simp add: issued'_def)
    show ?thesis using a b by simp
  qed
qed

lemma enhance_images_map:
  "fst (enhanceImagesWithContext api lw p images) = map (\<lambda>im. fst (enhance_image api lw im)) images"
  using enhance_loop_run[of api lw p 0 images "{#}" "[]"]
  by (simp add: enhanceImagesWithContext_def)

lemma enhance_issued:
  "fst (snd (enhanceImagesWithContext api lw p images)) =
     mset (concat (map (\<lambda>im. snd (enhance_image api lw im)) images))"
  using enhance_loop_run[of api lw p 0 images "{#}" "[]"]
  by (simp add: enhanceImagesWithContext_def)

lemma enhance_image_loaded: "contextLoaded im \<Longrightarrow> enhance_image api lw im = (im, [])"
  by (simp add: enhance_image_def)

lemma enhance_image_sets_loaded: "contextLoaded (fst (enhance_image api lw im))"
  by (simp add: enhance_image_def split: prod.splits)

lemma enhance_image_issued:
  "concat (map (\<lambda>im. snd (enhance_image api lw im)) images) =
   concat (map (\<lambda>im. snd (getBlockContext api (uid im))) (filter (\<lambda>im. \<not> contextLoaded im) images))"
  by (induction images) (auto simp: enhance_image_def split: prod.splits)

text \<open>
  C7. Enrichment is idempotent: a record whose \<open>contextLoaded\<close> is already true is left
  as it is by \<open>enhanceImagesWithContext\<close>, the context queries issued are those of the
  records not yet loaded, and a second run changes no record and issues no query.
\<close>

theorem enhanceImagesWithContext_idempotent:
  "list_all2 (\<lambda>old new. contextLoaded old \<longrightarrow> new = old)
     images (fst (enhanceImagesWithContext api lw p images)) \<and>
   fst (snd (enhanceImagesWithContext api lw p images)) =
     mset (concat (map (\<lambda>im. snd (getBlockContext api (uid im)))
                    (filter (\<lambda>im. \<not> contextLoaded im) images))) \<and>
   fst (enhanceImagesWithContext api' lw' p' (fst (enhanceImagesWithContext api lw p images))) =
     fst (enhanceImagesWithContext api lw p images) \<and>
   fst (snd (enhanceImagesWithContext api' lw' p' (fst (enhanceImagesWithContext api lw p images)))) = {#}"
proof -
  have a: "list_all2 (\<lambda>old new. contextLoaded old \<longrightarrow> new = old)
     images (fst (enhanceImagesWithContext api lw p images))"
    unfolding enhance_images_map
    by (simp add: list_all2_map2 list_all2_same enhance_image_loaded)
  have b: "fst (snd (enhanceImagesWithContext api lw p images)) =
     mset (concat (map (\<lambda>im. snd (getBlockContext api (uid im)))
                    (filter (\<lambda>im. \<not> contextLoaded im) images)))"
    by (simp only: enhance_issued enhance_image_issued)
  have all: "\<forall>im\<in>set (fst (enhanceImagesWithContext api lw p images)). contextLoaded im"
    unfolding enhance_images_map by (simp add: enhance_image_sets_loaded)
  have c: "fst (enhanceImagesWithContext api' lw' p' (fst (enhanceImagesWithContext api lw p images))) =
     fst (enhanceImagesWithContext api lw p images)"
    unfolding enhance_images_map[of api' lw' p'] using all
    by (simp add: map_idI enhance_image_loaded)
  have "filter (\<lambda>im. \<not> contextLoaded im) (fst (enhanceImagesWithContext api lw p images)) = []"
    using all by (simp add: filter_empty_conv)
  then have d: "fst (snd (enhanceImagesWithContext api' lw' p' (fst (enhanceImagesWithContext api lw p images)))) = {#}"
    by (simp only: enhance_issued enhance_image_issued) simp
  show ?thesis using a b c d by blast
qed

theorem enhanceImagesWithContext_idempotent_witness:
  "fst (enhanceImagesWithContext (example_api []) ascii_toLowerCase True example_mixed) ! 0 = example_mixed ! 0 \<and>
   fst (snd (enhanceImagesWithContext (example_api []) ascii_toLowerCase True example_mixed)) =
     {#(ParentQuery, ''b''), (ChildrenQuery, ''b''), (SiblingsQuery, ''b'')#} \<and>
   fst (snd (enhanceImagesWithContext (example_api []) ascii_toLowerCase True
          (fst (enhanceImagesWithContext (example_api []) ascii_toLowerCase True example_mixed)))) = {#}"
proof -
  note th = enhanceImagesWithContext_idempotent
    [of example_mixed "example_api []" ascii_toLowerCase True "example_api []" ascii_toLowerCase True]
  have l: "contextLoaded (example_mixed ! 0)" by (simp add: example_mixed_def)
  have n: "(0::nat) < length example_mixed" by (simp add: example_mixed_def)
  have a: "fst (enhanceImagesWithContext (example_api []) ascii_toLowerCase True example_mixed) ! 0 = example_mixed ! 0"
    using th[THEN conjunct1] l n by (auto simp: list_all2_conv_all_nth)
  have q: "concat (map (\<lambda>im. snd (getBlockContext (example_api []) (uid im)))
                    (filter (\<lambda>im. \<not> contextLoaded im) example_mixed))
            = [(ParentQuery, ''b''), (ChildrenQuery, ''b''), (SiblingsQuery, ''b'')]"
    by code_simp
  have b: "fst (snd (enhanceImagesWithContext (example_api []) ascii_toLowerCase True example_mixed)) =
     {#(ParentQuery, ''b''), (ChildrenQuery, ''b''), (SiblingsQuery, ''b'')#}"
    unfolding th[THEN conjunct2, THEN conjunct1] q by simp
  show ?thesis using a b th by blast
qed

text \<open>
  C10. \<open>enhanceImagesWithContext\<close> leaves \<open>uid\<close>, \<open>url\<close>, \<open>alt\<close>, \<open>createTime\<close>,
  \<open>pageTitle\<close> and \<open>blockContent\<close> of every record as they were; a record it enriches
  gets the context of its block, \<open>contextLoaded\<close> true, and as \<open>searchableContent\<close> the
  lowercased concatenation, with single spaces between, of \<open>blockContent\<close>,
  \<open>parentContent\<close>, \<open>childrenContent\<close>, \<open>siblingsContent\<close> and \<open>pageTitle\<close>.
\<close>

theorem enhanceImagesWithContext_frame:
  "list_all2
     (\<lambda>old new.
        uid new = uid old \<and> url new = url old \<and> alt new = alt old \<and>
        createTime new = createTime old \<and> pageTitle new = pageTitle old \<and>
        blockContent new = blockContent old \<and>
        contextLoaded new \<and>
        (\<not> contextLoaded old \<longrightarrow>
           (parentContent new, childrenContent new, siblingsContent new) =
             fst (getBlockContext api (uid old)) \<and>
           searchableContent new =
             lw (blockContent new @ '' '' @ parentContent new @ '' '' @ childrenContent new @ '' '' @
                 siblingsContent new @ '' '' @ pageTitle new)))
     images (fst (enhanceImagesWithContext api lw p images))"
  unfolding enhance_images_map
  by (simp add: list_all2_map2 list_all2_same enhance_image_def split: prod.splits)

theorem enhanceImagesWithContext_frame_witness:
  "fst (enhanceImagesWithContext (example_api []) ascii_toLowerCase True example_mixed) =
     [example_mixed ! 0,
      (example_mixed ! 1)
        \<lparr> parentContent := ''parent of b'',
          childrenContent := ''Child One Child Two'',
          siblingsContent := ''Before After'',
          searchableContent := ''![](y) parent of b child one child two before after alpha'',
          contextLoaded := True \<rparr>] \<and>
   list_all2 (\<lambda>old new. uid new = uid old \<and> contextLoaded new)
     example_mixed (fst (enhanceImagesWithContext (example_api []) ascii_toLowerCase True example_mixed))"
proof -
  note th = enhanceImagesWithContext_frame[of "example_api []" ascii_toLowerCase example_mixed True]
  have a: "list_all2 (\<lambda>old new. uid new = uid old \<and> contextLoaded new)
     example_mixed (fst (enhanceImagesWithContext (example_api []) ascii_toLowerCase True example_mixed))"
    by (rule list_all2_mono[OF th]) simp
  have b: "fst (enhanceImagesWithContext (example_api []) ascii_toLowerCase True example_mixed) =
     [example_mixed ! 0,
      (example_mixed ! 1)
        \<lparr> parentContent := ''parent of b'',
          childrenContent := ''Child One Child Two'',
          siblingsContent := ''Before After'',
          searchableContent := ''![](y) parent of b child one child two before after alpha'',
          contextLoaded := True \<rparr>]"
    by code_simp
  show ?thesis using a b by (intro conjI)
qed

end
